theory Spec2Isabelle
  imports Main "HOL-Library.Multiset" "HOL-Library.Sublist"
begin

section \<open>Values, errors and the backing file\<close>

text \<open>
  The program is the class \<open>PersistentPriorityQueue\<close> of \<open>main.py\<close>: a priority queue
  whose whole state is one text file, read in full and rewritten in full by each method.

  Python's \<open>str\<close> is modelled by \<open>string\<close>, one \<open>char\<close> per code point, so the model
  covers the code points below 256. Python's unbounded \<open>int\<close> is \<open>int\<close>; the interpreter's
  optional limit on the number of digits of an integer converted to or from text is not
  modelled. The file is read and written in text mode on a POSIX system: a written
  \<open>\n\<close> is stored as it is, and on reading \<open>\r\n\<close> and \<open>\r\<close> both become \<open>\n\<close>.
  The encoding of the file is taken to hold every character written, and failures of the
  operating system other than a missing file are not modelled.
\<close>

datatype reason =
    NotEnoughValues  \<comment> \<open>\<open>priority, item = ...\<close> unpacking a list of one element\<close>
  | InvalidLiteral   \<comment> \<open>\<open>int(priority)\<close> on text that is no integer\<close>
  | EmptySequence    \<comment> \<open>\<open>min\<close> of an empty list\<close>
  | NotInList        \<comment> \<open>\<open>list.remove(x)\<close> with \<open>x\<close> absent\<close>
  | ItemNotFound     \<comment> \<open>raised by \<open>change_priority\<close>: "Item ... not found in the queue."\<close>

datatype error =
    FileNotFoundError  \<comment> \<open>\<open>open(path, 'r')\<close> on a path that does not exist\<close>
  | IndexError         \<comment> \<open>raised by \<open>pop\<close> and \<open>peek\<close>: "Queue is empty"\<close>
  | ValueError reason

type_synonym entry = "int \<times> string"

text \<open>The file at \<open>self.file_path\<close>: \<open>None\<close> when it does not exist, else its text.\<close>

type_synonym store = "string option"

abbreviation LF :: char where "LF \<equiv> CHR 0x0A"
abbreviation CR :: char where "CR \<equiv> CHR 0x0D"
abbreviation SP :: char where "SP \<equiv> CHR 0x20"

subsection \<open>Built-in string operations\<close>

text \<open>\<open>str.isspace\<close> on one character, which decides what \<open>str.strip()\<close> removes.\<close>

definition isspace :: "char \<Rightarrow> bool" where
  "isspace c =
     (let n = (of_char c :: nat)
      in (9 \<le> n \<and> n \<le> 13) \<or> (28 \<le> n \<and> n \<le> 32) \<or> n = 133 \<or> n = 160)"

definition strip :: "string \<Rightarrow> string" where
  "strip s = rev (dropWhile isspace (rev (dropWhile isspace s)))"

text \<open>\<open>s.split(' ', 1)\<close>: at most one split, at the first space character.\<close>

definition split1 :: "string \<Rightarrow> string list" where
  "split1 s =
     (if SP \<in> set s
      then [takeWhile (\<lambda>c. c \<noteq> SP) s, tl (dropWhile (\<lambda>c. c \<noteq> SP) s)]
      else [s])"

subsection \<open>Integers as text\<close>

definition isdigit :: "char \<Rightarrow> bool" where
  "isdigit c = (let n = (of_char c :: nat) in 48 \<le> n \<and> n \<le> 57)"

definition digit_val :: "char \<Rightarrow> nat" where
  "digit_val c = of_char c - 48"

definition digit_char :: "nat \<Rightarrow> char" where
  "digit_char d = char_of (48 + d)"

text \<open>
  The white space \<open>int()\<close> skips around the number: the ASCII white space, and the
  non-ASCII white space of \<open>isspace\<close>; the separators 28 to 31 are not skipped.
\<close>

definition int_space :: "char \<Rightarrow> bool" where
  "int_space c =
     (let n = (of_char c :: nat)
      in (9 \<le> n \<and> n \<le> 13) \<or> n = 32 \<or> n = 133 \<or> n = 160)"

text \<open>
  The digits of a decimal literal after its first digit: further digits, each optionally
  preceded by one underscore.
\<close>

fun digits_value :: "nat \<Rightarrow> string \<Rightarrow> nat option" where
  "digits_value acc [] = Some acc"
| "digits_value acc [c] =
     (if isdigit c then Some (10 * acc + digit_val c) else None)"
| "digits_value acc (c # d # ds) =
     (if isdigit c then digits_value (10 * acc + digit_val c) (d # ds)
      else if c = CHR ''_'' \<and> isdigit d then digits_value (10 * acc + digit_val d) ds
      else None)"

definition parse_nat :: "string \<Rightarrow> nat option" where
  "parse_nat s =
     (case s of
        [] \<Rightarrow> None
      | c # cs \<Rightarrow> if isdigit c then digits_value (digit_val c) cs else None)"

text \<open>\<open>int(s)\<close> in base 10; \<open>None\<close> stands for the \<open>ValueError\<close> it raises.\<close>

definition py_int :: "string \<Rightarrow> int option" where
  "py_int s =
     (case rev (dropWhile int_space (rev (dropWhile int_space s))) of
        [] \<Rightarrow> None
      | c # cs \<Rightarrow>
          if c = CHR ''-'' then map_option (\<lambda>n. - int n) (parse_nat cs)
          else if c = CHR ''+'' then map_option int (parse_nat cs)
          else map_option int (parse_nat (c # cs)))"

text \<open>The text of an integer in an f-string, \<open>f"{priority}"\<close>.\<close>

fun str_nat :: "nat \<Rightarrow> string" where
  "str_nat n =
     (if n < 10 then [digit_char n] else str_nat (n div 10) @ [digit_char (n mod 10)])"

declare str_nat.simps [simp del]

definition str_int :: "int \<Rightarrow> string" where
  "str_int i = (if i < 0 then CHR ''-'' # str_nat (nat (- i)) else str_nat (nat i))"

subsection \<open>Reading the file\<close>

text \<open>Universal newlines, applied to the text of a file opened for reading.\<close>

fun universal_newlines :: "string \<Rightarrow> string" where
  "universal_newlines [] = []"
| "universal_newlines [c] = (if c = CR then [LF] else [c])"
| "universal_newlines (c # d # ds) =
     (if c = CR \<and> d = LF then LF # universal_newlines ds
      else if c = CR then LF # universal_newlines (d # ds)
      else c # universal_newlines (d # ds))"

text \<open>\<open>for line in file\<close>: the lines of the text, each with its terminating \<open>\n\<close>;
  the last line has none when the text does not end in one.\<close>

fun file_lines :: "string \<Rightarrow> string list" where
  "file_lines [] = []"
| "file_lines (c # cs) =
     (if c = LF then [c] # file_lines cs
      else (case file_lines cs of
              [] \<Rightarrow> [[c]]
            | l # ls \<Rightarrow> (c # l) # ls))"

text \<open>
  The body of the read loop, the same in every method:
  \<open>priority, item = line.strip().split(' ', 1); items.append((int(priority), item))\<close>.
\<close>

definition parse_line :: "string \<Rightarrow> error + entry" where
  "parse_line line =
     (case split1 (strip line) of
        [priority, item] \<Rightarrow>
          (case py_int priority of
             None \<Rightarrow> Inl (ValueError InvalidLiteral)
           | Some p \<Rightarrow> Inr (p, item))
      | _ \<Rightarrow> Inl (ValueError NotEnoughValues))"

fun read_lines :: "string list \<Rightarrow> error + entry list" where
  "read_lines [] = Inr []"
| "read_lines (l # ls) =
     (case parse_line l of
        Inl e \<Rightarrow> Inl e
      | Inr x \<Rightarrow> (case read_lines ls of Inl e \<Rightarrow> Inl e | Inr xs \<Rightarrow> Inr (x # xs)))"

text \<open>Opening the file for reading and running the read loop over it.\<close>

definition read_items :: "store \<Rightarrow> error + entry list" where
  "read_items st =
     (case st of
        None \<Rightarrow> Inl FileNotFoundError
      | Some text \<Rightarrow> read_lines (file_lines (universal_newlines text)))"

subsection \<open>Writing the file\<close>

text \<open>One written line, \<open>f"{priority} {item}\n"\<close>.\<close>

definition format_line :: "int \<Rightarrow> string \<Rightarrow> string" where
  "format_line priority item = str_int priority @ [SP] @ item @ [LF]"

text \<open>The text written by the loop \<open>for priority, item in items: file.write(...)\<close>
  into the file opened with mode \<open>'w'\<close>.\<close>

definition write_items :: "entry list \<Rightarrow> string" where
  "write_items items = concat (map (\<lambda>(priority, item). format_line priority item) items)"

section \<open>The queue operations\<close>

text \<open>
  Each method takes the file and returns what it returns or raises, with the file
  afterwards. A method that raises before it opens the file for writing leaves the file
  as it was.
\<close>

text \<open>\<open>push\<close> opens the file with mode \<open>'a'\<close>, which creates a missing file, and writes
  one line at its end.\<close>

definition push :: "string \<Rightarrow> int \<Rightarrow> store \<Rightarrow> (error + unit) \<times> store" where
  "push item priority st =
     (Inr (), Some ((case st of None \<Rightarrow> [] | Some text \<Rightarrow> text) @ format_line priority item))"

text \<open>\<open>min(items, key=lambda x: x[0])\<close>: the running best is replaced only by a strictly
  smaller key.\<close>

fun min_loop :: "entry \<Rightarrow> entry list \<Rightarrow> entry" where
  "min_loop best [] = best"
| "min_loop best (x # xs) = min_loop (if fst x < fst best then x else best) xs"

definition min_by_priority :: "entry list \<Rightarrow> error + entry" where
  "min_by_priority items =
     (case items of
        [] \<Rightarrow> Inl (ValueError EmptySequence)
      | x # xs \<Rightarrow> Inr (min_loop x xs))"

text \<open>\<open>items.remove(x)\<close>: removes the first element equal to \<open>x\<close>.\<close>

definition list_remove :: "entry \<Rightarrow> entry list \<Rightarrow> error + entry list" where
  "list_remove x xs =
     (if x \<in> set xs then Inr (remove1 x xs) else Inl (ValueError NotInList))"

definition pop :: "store \<Rightarrow> (error + string) \<times> store" where
  "pop st =
     (case read_items st of
        Inl e \<Rightarrow> (Inl e, st)
      | Inr items \<Rightarrow>
          if items = [] then (Inl IndexError, st)
          else
            (case min_by_priority items of
               Inl e \<Rightarrow> (Inl e, st)
             | Inr highest_priority_item \<Rightarrow>
                 (case list_remove highest_priority_item items of
                    Inl e \<Rightarrow> (Inl e, st)
                  | Inr items' \<Rightarrow>
                      (Inr (snd highest_priority_item), Some (write_items items')))))"

definition peek :: "store \<Rightarrow> error + string" where
  "peek st =
     (case read_items st of
        Inl e \<Rightarrow> Inl e
      | Inr items \<Rightarrow>
          if items = [] then Inl IndexError
          else
            (case min_by_priority items of
               Inl e \<Rightarrow> Inl e
             | Inr highest_priority_item \<Rightarrow> Inr (snd highest_priority_item)))"

definition is_empty :: "store \<Rightarrow> error + bool" where
  "is_empty st =
     (case st of
        None \<Rightarrow> Inl FileNotFoundError
      | Some text \<Rightarrow> Inr (file_lines (universal_newlines text) = []))"

text \<open>The loop of \<open>change_priority\<close> over the items read, with its state
  \<open>(updated_items, found)\<close>.\<close>

fun update_loop :: "string \<Rightarrow> int \<Rightarrow> entry list \<Rightarrow> entry list \<times> bool \<Rightarrow> entry list \<times> bool" where
  "update_loop target_item new_priority [] (updated_items, found) = (updated_items, found)"
| "update_loop target_item new_priority ((priority, item) # rest) (updated_items, found) =
     (if item = target_item
      then update_loop target_item new_priority rest
             (updated_items @ [(new_priority, item)], True)
      else update_loop target_item new_priority rest
             (updated_items @ [(priority, item)], found))"

definition change_priority :: "string \<Rightarrow> int \<Rightarrow> store \<Rightarrow> (error + unit) \<times> store" where
  "change_priority target_item new_priority st =
     (case read_items st of
        Inl e \<Rightarrow> (Inl e, st)
      | Inr items \<Rightarrow>
          (case update_loop target_item new_priority items ([], False) of
             (updated_items, found) \<Rightarrow>
               if \<not> found then (Inl (ValueError ItemNotFound), st)
               else (Inr (), Some (write_items updated_items))))"

text \<open>
  \<open>items.sort(key=lambda x: x[0])\<close>. Python's sort is stable, and a stable sort has one
  possible result, which the insertion sort \<open>sort_key\<close> computes too.
\<close>

definition sort_by_priority :: "entry list \<Rightarrow> entry list" where
  "sort_by_priority items = sort_key fst items"

text \<open>The loop of \<open>reorder_priorities\<close> with its counter \<open>new_priority\<close>.\<close>

fun renumber :: "int \<Rightarrow> entry list \<Rightarrow> entry list" where
  "renumber new_priority [] = []"
| "renumber new_priority ((_, item) # rest) =
     (new_priority, item) # renumber (new_priority + 1) rest"

definition reorder_priorities :: "store \<Rightarrow> (error + unit) \<times> store" where
  "reorder_priorities st =
     (case read_items st of
        Inl e \<Rightarrow> (Inl e, st)
      | Inr items \<Rightarrow> (Inr (), Some (write_items (renumber 1 (sort_by_priority items)))))"



subsection \<open>Sequences of calls\<close>

text \<open>A sequence of \<open>push\<close> calls, one for each element of the list, in order.\<close>

fun push_all :: "entry list \<Rightarrow> store \<Rightarrow> store" where
  "push_all [] st = st"
| "push_all ((priority, item) # rest) st = push_all rest (snd (push item priority st))"

text \<open>\<open>n\<close> calls of \<open>pop\<close> in a row, collecting what they return; the first call that
  raises ends the sequence.\<close>

fun pop_n :: "nat \<Rightarrow> store \<Rightarrow> (error + string list) \<times> store" where
  "pop_n 0 st = (Inr [], st)"
| "pop_n (Suc n) st =
     (case pop st of
        (Inl e, st') \<Rightarrow> (Inl e, st')
      | (Inr item, st') \<Rightarrow>
          (case pop_n n st' of
             (Inl e, st'') \<Rightarrow> (Inl e, st'')
           | (Inr popped, st'') \<Rightarrow> (Inr (item # popped), st'')))"

subsection \<open>Items that the file format can hold\<close>

text \<open>
  The definitions of this subsection are not part of the program: the theorems use them
  to say which items a line of the file can hold, and what the read loop makes of them.
\<close>

text \<open>
  Python's \<open>str.rstrip()\<close>: what \<open>strip\<close> leaves of an item that stands at the end of a
  line.
\<close>

definition rstrip :: "string \<Rightarrow> string" where
  "rstrip s = rev (dropWhile isspace (rev s))"

text \<open>
  An item that the read loop finds again, up to white space at its end: it has a
  character that is no white space, and no character that ends a line.
\<close>

definition storable_item :: "string \<Rightarrow> bool" where
  "storable_item item = (rstrip item \<noteq> [] \<and> LF \<notin> set item \<and> CR \<notin> set item)"

text \<open>
  An item that comes back from the read loop as it was written: it has a last character
  that \<open>strip\<close> keeps, and no character that ends a line.
\<close>

definition well_formed_item :: "string \<Rightarrow> bool" where
  "well_formed_item item =
     (item \<noteq> [] \<and> \<not> isspace (last item) \<and> LF \<notin> set item \<and> CR \<notin> set item)"

text \<open>An entry as the read loop returns it after it was written.\<close>

definition as_read :: "entry \<Rightarrow> entry" where
  "as_read e = (fst e, rstrip (snd e))"

section \<open>Integers written and read back\<close>

lemma digit_char_props:
  "d < 10 \<Longrightarrow> isdigit (digit_char d) \<and> digit_val (digit_char d) = d"
  by (simp add: isdigit_def digit_val_def digit_char_def)

lemma isdigit_not_special:
  "isdigit c \<Longrightarrow> \<not> isspace c \<and> \<not> int_space c \<and> c \<noteq> SP \<and> c \<noteq> LF \<and> c \<noteq> CR
     \<and> c \<noteq> CHR ''-'' \<and> c \<noteq> CHR ''+''"
  by (auto simp add: isdigit_def isspace_def int_space_def Let_def)

lemma minus_not_special:
  "\<not> isspace (CHR ''-'') \<and> \<not> int_space (CHR ''-'')"
  by (simp add: isspace_def int_space_def)

lemma space_chars: "isspace LF \<and> isspace SP \<and> isspace CR"
  by (simp add: isspace_def)

lemma str_nat_digits: "c \<in> set (str_nat n) \<Longrightarrow> isdigit c"
proof (induction n arbitrary: c rule: str_nat.induct)
  case (1 n)
  show ?case
  proof (cases "n < 10")
    case True
    with "1.prems" show ?thesis
      by (simp add: str_nat.simps [of n] digit_char_props)
  next
    case False
    with "1.prems" have "c \<in> set (str_nat (n div 10)) \<or> c = digit_char (n mod 10)"
      by (auto simp add: str_nat.simps [of n])
    moreover have "isdigit (digit_char (n mod 10))"
      by (simp add: digit_char_props)
    ultimately show ?thesis using "1.IH" [OF False] by blast
  qed
qed

lemma str_nat_nonempty: "str_nat n \<noteq> []"
  by (subst str_nat.simps) simp

lemma digits_value_foldl:
  "\<forall>c \<in> set ds. isdigit c \<Longrightarrow>
   digits_value acc ds = Some (foldl (\<lambda>a c. 10 * a + digit_val c) acc ds)"
  by (induction acc ds rule: digits_value.induct) simp_all

lemma foldl_str_nat: "foldl (\<lambda>a c. 10 * a + digit_val c) 0 (str_nat n) = n"
proof (induction n rule: str_nat.induct)
  case (1 n)
  show ?case
  proof (cases "n < 10")
    case True
    then show ?thesis by (simp add: str_nat.simps [of n] digit_char_props)
  next
    case False
    then show ?thesis
      using "1.IH" [OF False] by (simp add: str_nat.simps [of n] digit_char_props)
  qed
qed

lemma parse_nat_str_nat: "parse_nat (str_nat n) = Some n"
proof (cases "str_nat n")
  case Nil
  then show ?thesis using str_nat_nonempty by blast
next
  case (Cons c cs)
  have d: "\<forall>x \<in> set (c # cs). isdigit x" using str_nat_digits [of _ n] Cons by auto
  have "foldl (\<lambda>a c. 10 * a + digit_val c) 0 (c # cs) = n"
    using foldl_str_nat [of n] Cons by simp
  then show ?thesis using d Cons by (simp add: parse_nat_def digits_value_foldl)
qed

lemma dropWhile_id: "xs = [] \<or> \<not> P (hd xs) \<Longrightarrow> dropWhile P xs = xs"
  by (cases xs) auto

lemma trim_id:
  "xs \<noteq> [] \<Longrightarrow> \<not> P (hd xs) \<Longrightarrow> \<not> P (last xs) \<Longrightarrow>
   rev (dropWhile P (rev (dropWhile P xs))) = xs"
  by (simp add: dropWhile_id hd_rev)

lemma str_int_chars:
  "c \<in> set (str_int i) \<Longrightarrow> isdigit c \<or> c = CHR ''-''"
  by (auto simp add: str_int_def dest: str_nat_digits split: if_splits)

lemma str_int_nonempty: "str_int i \<noteq> []"
  by (simp add: str_int_def str_nat_nonempty)

lemma str_int_plain:
  "c \<in> set (str_int i) \<Longrightarrow> \<not> isspace c \<and> \<not> int_space c \<and> c \<noteq> SP \<and> c \<noteq> LF \<and> c \<noteq> CR"
  using str_int_chars [of c i] isdigit_not_special [of c] minus_not_special by auto

lemma py_int_str_int: "py_int (str_int i) = Some i"
proof -
  have ne: "str_int i \<noteq> []" by (rule str_int_nonempty)
  have "\<not> int_space (hd (str_int i))" "\<not> int_space (last (str_int i))"
    using ne str_int_plain [of _ i] by (simp_all add: hd_in_set last_in_set)
  then have t: "rev (dropWhile int_space (rev (dropWhile int_space (str_int i)))) = str_int i"
    using ne by (simp add: trim_id)
  show ?thesis
  proof (cases "i < 0")
    case True
    then show ?thesis
      unfolding py_int_def t by (simp add: str_int_def parse_nat_str_nat)
  next
    case False
    obtain c cs where cs: "str_nat (nat i) = c # cs"
      using str_nat_nonempty [of "nat i"] by (cases "str_nat (nat i)") auto
    have "isdigit c" using str_nat_digits [of c "nat i"] cs by simp
    then have "c \<noteq> CHR ''-''" "c \<noteq> CHR ''+''" using isdigit_not_special by blast+
    moreover have "parse_nat (c # cs) = Some (nat i)"
      using parse_nat_str_nat [of "nat i"] cs by simp
    ultimately show ?thesis
      unfolding py_int_def t using False cs by (simp add: str_int_def)
  qed
qed

section \<open>One line written and read back\<close>

lemma strip_snoc_space:
  assumes "isspace c"
  shows "strip (s @ [c]) = strip s"
proof (cases "\<forall>x \<in> set s. isspace x")
  case True
  have a: "dropWhile isspace s = []" using True by (induction s) auto
  have b: "dropWhile isspace (s @ [c]) = []" using True assms by (induction s) auto
  show ?thesis unfolding strip_def a b by (rule refl)
next
  case False
  then show ?thesis using assms by (auto simp add: strip_def dropWhile_append)
qed

lemma strip_subset: "set (strip s) \<subseteq> set s"
proof
  fix x
  assume "x \<in> set (strip s)"
  then have "x \<in> set (dropWhile isspace (rev (dropWhile isspace s)))"
    by (simp add: strip_def)
  then have "x \<in> set (rev (dropWhile isspace s))" by (rule set_dropWhileD)
  then have "x \<in> set (dropWhile isspace s)" by simp
  then show "x \<in> set s" by (rule set_dropWhileD)
qed

lemma strip_last: "strip s \<noteq> [] \<Longrightarrow> \<not> isspace (last (strip s))"
proof -
  assume a: "strip s \<noteq> []"
  let ?r = "dropWhile isspace (rev (dropWhile isspace s))"
  have "?r \<noteq> []" using a by (simp add: strip_def)
  then have "\<not> isspace (hd ?r)" by (rule hd_dropWhile)
  then show ?thesis using \<open>?r \<noteq> []\<close> by (simp add: strip_def last_rev)
qed

lemma rstrip_id: "item \<noteq> [] \<Longrightarrow> \<not> isspace (last item) \<Longrightarrow> rstrip item = item"
  by (simp add: rstrip_def dropWhile_id hd_rev)

lemma strip_format_line:
  assumes "rstrip item \<noteq> []"
  shows "strip (format_line p item) = str_int p @ SP # rstrip item"
proof -
  let ?a = "str_int p"
  have "\<not> isspace (hd (?a @ SP # item))"
    using str_int_nonempty [of p] str_int_plain [of "hd (str_int p)" p] by simp
  then have l: "dropWhile isspace (?a @ SP # item) = ?a @ SP # item"
    by (simp add: dropWhile_id)
  have "\<not> (\<forall>x \<in> set (rev item). isspace x)"
    using assms by (simp add: rstrip_def dropWhile_eq_Nil_conv)
  then have "dropWhile isspace (rev item @ SP # rev ?a)
      = dropWhile isspace (rev item) @ SP # rev ?a"
    by (auto simp add: dropWhile_append)
  then have "strip (?a @ SP # item) = ?a @ SP # rstrip item"
    unfolding strip_def l by (simp add: rstrip_def)
  moreover have "format_line p item = (?a @ SP # item) @ [LF]" by (simp add: format_line_def)
  ultimately show ?thesis using strip_snoc_space [of LF "?a @ SP # item"] space_chars by simp
qed

lemma split1_at: "SP \<notin> set a \<Longrightarrow> split1 (a @ SP # b) = [a, b]"
proof -
  assume a: "SP \<notin> set a"
  then have "\<And>x. x \<in> set a \<Longrightarrow> x \<noteq> SP" by blast
  then have "takeWhile (\<lambda>c. c \<noteq> SP) (a @ SP # b) = a"
    and "dropWhile (\<lambda>c. c \<noteq> SP) (a @ SP # b) = SP # b"
    by (simp_all add: takeWhile_append2 dropWhile_append2)
  then show ?thesis by (simp add: split1_def)
qed

lemma split1_two:
  assumes "split1 s = [a, b]"
  shows "s = a @ SP # b"
proof -
  have m: "SP \<in> set s" using assms by (auto simp add: split1_def split: if_splits)
  then have "dropWhile (\<lambda>c. c \<noteq> SP) s \<noteq> []" by simp
  moreover have "hd (dropWhile (\<lambda>c. c \<noteq> SP) s) = SP"
    using hd_dropWhile [of "\<lambda>c. c \<noteq> SP" s] calculation by simp
  ultimately have "dropWhile (\<lambda>c. c \<noteq> SP) s = SP # tl (dropWhile (\<lambda>c. c \<noteq> SP) s)"
    by (metis list.collapse)
  moreover have "a = takeWhile (\<lambda>c. c \<noteq> SP) s" "b = tl (dropWhile (\<lambda>c. c \<noteq> SP) s)"
    using assms m by (simp_all add: split1_def)
  ultimately show ?thesis using takeWhile_dropWhile_id [of "\<lambda>c. c \<noteq> SP" s] by simp
qed

lemma parse_line_format_line:
  assumes "rstrip item \<noteq> []"
  shows "parse_line (format_line p item) = Inr (p, rstrip item)"
proof -
  have "SP \<notin> set (str_int p)" using str_int_plain [of SP p] by blast
  then have "split1 (str_int p @ SP # rstrip item) = [str_int p, rstrip item]"
    by (rule split1_at)
  then show ?thesis
    using assms by (simp add: parse_line_def strip_format_line py_int_str_int)
qed

lemma parse_line_item:
  assumes "parse_line l = Inr (p, item)"
  shows "item \<noteq> [] \<and> \<not> isspace (last item) \<and> set item \<subseteq> set (strip l)"
proof -
  have s: "split1 (strip l) = [a, item] \<Longrightarrow> ?thesis" for a
  proof -
    assume "split1 (strip l) = [a, item]"
    then have e: "strip l = a @ SP # item" by (rule split1_two)
    then have "strip l \<noteq> []" by simp
    then have nl: "\<not> isspace (last (strip l))" by (rule strip_last)
    have "item \<noteq> []" using nl e space_chars by auto
    then show ?thesis using nl e by auto
  qed
  from assms obtain a where "split1 (strip l) = [a, item]"
    by (auto simp add: parse_line_def split: list.splits option.splits)
  then show ?thesis by (rule s)
qed

section \<open>The whole file written and read back\<close>

lemma universal_newlines_id: "CR \<notin> set t \<Longrightarrow> universal_newlines t = t"
  by (induction t rule: universal_newlines.induct) auto

lemma universal_newlines_no_CR: "CR \<notin> set (universal_newlines t)"
  by (induction t rule: universal_newlines.induct) auto

lemma file_lines_line:
  "LF \<notin> set b \<Longrightarrow> file_lines (b @ LF # rest) = (b @ [LF]) # file_lines rest"
  by (induction b) auto

lemma file_lines_struct:
  "l \<in> set (file_lines t) \<Longrightarrow> l \<noteq> [] \<and> LF \<notin> set (butlast l) \<and> set l \<subseteq> set t"
proof (induction t arbitrary: l)
  case Nil
  then show ?case by simp
next
  case (Cons c cs)
  show ?case
  proof (cases "c = LF")
    case True
    then show ?thesis using Cons by auto
  next
    case False
    show ?thesis
    proof (cases "file_lines cs")
      case Nil
      then show ?thesis using Cons.prems False by simp
    next
      case (Cons k ks)
      then have k: "k \<noteq> [] \<and> LF \<notin> set (butlast k) \<and> set k \<subseteq> set cs"
        using Cons.IH [of k] by simp
      from Cons Cons.prems False have "l = c # k \<or> l \<in> set ks" by simp
      then show ?thesis
      proof
        assume "l = c # k"
        then show ?thesis using k False by auto
      next
        assume "l \<in> set ks"
        then show ?thesis using Cons.IH [of l] Cons by auto
      qed
    qed
  qed
qed

lemma format_line_body:
  "LF \<notin> set item \<Longrightarrow> LF \<notin> set (str_int p @ SP # item)"
  "CR \<notin> set item \<Longrightarrow> CR \<notin> set (format_line p item)"
  using str_int_plain [of LF p] str_int_plain [of CR p] by (auto simp add: format_line_def)

lemma write_items_no_CR:
  "\<forall>e \<in> set es. CR \<notin> set (snd e) \<Longrightarrow> CR \<notin> set (write_items es)"
  using format_line_body(2) by (fastforce simp add: write_items_def)

lemma read_lines_write_items:
  "\<forall>e \<in> set es. storable_item (snd e) \<Longrightarrow>
   read_lines (file_lines (write_items es)) = Inr (map as_read es)"
proof (induction es)
  case Nil
  then show ?case by (simp add: write_items_def)
next
  case (Cons e es)
  obtain p item where e: "e = (p, item)" by (cases e)
  with Cons.prems have st: "storable_item item" by simp
  have w: "write_items (e # es) = (str_int p @ SP # item) @ LF # write_items es"
    by (simp add: write_items_def e format_line_def)
  have "LF \<notin> set (str_int p @ SP # item)"
    using st by (intro format_line_body(1)) (simp add: storable_item_def)
  then have "file_lines (write_items (e # es))
      = ((str_int p @ SP # item) @ [LF]) # file_lines (write_items es)"
    unfolding w by (rule file_lines_line)
  moreover have "(str_int p @ SP # item) @ [LF] = format_line p item"
    by (simp add: format_line_def)
  moreover have "parse_line (format_line p item) = Inr (p, rstrip item)"
    using st by (simp add: storable_item_def parse_line_format_line)
  moreover have "read_lines (file_lines (write_items es)) = Inr (map as_read es)"
    using Cons by simp
  ultimately show ?case by (simp add: e as_read_def)
qed

lemma read_items_write_storable:
  assumes "\<forall>e \<in> set es. storable_item (snd e)"
  shows "read_items (Some (write_items es)) = Inr (map as_read es)"
proof -
  have "CR \<notin> set (write_items es)"
    using assms by (intro write_items_no_CR) (simp add: storable_item_def)
  then show ?thesis
    using assms by (simp add: read_items_def universal_newlines_id read_lines_write_items)
qed

lemma well_formed_storable:
  assumes "well_formed_item item"
  shows "storable_item item" and "rstrip item = item"
proof -
  show r: "rstrip item = item" using assms by (simp add: well_formed_item_def rstrip_id)
  show "storable_item item" using assms by (simp add: storable_item_def r well_formed_item_def)
qed

lemma read_items_write_items:
  assumes "\<forall>e \<in> set es. well_formed_item (snd e)"
  shows "read_items (Some (write_items es)) = Inr es"
proof -
  have "map as_read es = es"
    using assms by (intro map_idI) (simp add: as_read_def well_formed_storable(2))
  moreover have "\<forall>e \<in> set es. storable_item (snd e)"
    using assms well_formed_storable(1) by blast
  ultimately show ?thesis using read_items_write_storable [of es] by simp
qed

lemma strip_line_no_LF:
  assumes "LF \<notin> set (butlast l)"
  shows "LF \<notin> set (strip l)"
proof (cases l rule: rev_cases)
  case Nil
  then show ?thesis by (simp add: strip_def)
next
  case (snoc b c)
  show ?thesis
  proof (cases "isspace c")
    case True
    then have "strip l = strip b" using snoc by (simp add: strip_snoc_space)
    then show ?thesis using strip_subset [of b] assms snoc by auto
  next
    case False
    then have "c \<noteq> LF" using space_chars by auto
    then have "LF \<notin> set l" using assms snoc by simp
    then show ?thesis using strip_subset [of l] by auto
  qed
qed

lemma read_lines_wf:
  "read_lines ls = Inr items \<Longrightarrow>
   \<forall>l \<in> set ls. LF \<notin> set (butlast l) \<and> CR \<notin> set l \<Longrightarrow>
   \<forall>e \<in> set items. well_formed_item (snd e)"
proof (induction ls arbitrary: items)
  case Nil
  then show ?case by simp
next
  case (Cons l ls)
  from Cons.prems(1) obtain p item rest where
    pl: "parse_line l = Inr (p, item)" and rl: "read_lines ls = Inr rest"
    and it: "items = (p, item) # rest"
    by (auto split: sum.splits)
  have "item \<noteq> [] \<and> \<not> isspace (last item) \<and> set item \<subseteq> set (strip l)"
    using pl by (rule parse_line_item)
  moreover have "LF \<notin> set (strip l)" using Cons.prems(2) by (simp add: strip_line_no_LF)
  moreover have "CR \<notin> set (strip l)" using Cons.prems(2) strip_subset [of l] by auto
  ultimately have "well_formed_item item" by (auto simp add: well_formed_item_def)
  moreover have "\<forall>e \<in> set rest. well_formed_item (snd e)"
    using Cons.IH [OF rl] Cons.prems(2) by simp
  ultimately show ?case using it by simp
qed

lemma read_items_wf:
  assumes "read_items st = Inr items"
  shows "\<forall>e \<in> set items. well_formed_item (snd e)"
proof -
  from assms obtain content where st: "st = Some content"
    by (cases st) (simp_all add: read_items_def)
  let ?t = "universal_newlines content"
  have "\<forall>l \<in> set (file_lines ?t). LF \<notin> set (butlast l) \<and> CR \<notin> set l"
    using file_lines_struct [of _ ?t] universal_newlines_no_CR [of content] by blast
  moreover have "read_lines (file_lines ?t) = Inr items"
    using assms st by (simp add: read_items_def)
  ultimately show ?thesis using read_lines_wf by blast
qed

section \<open>Selection, sorting and the loops\<close>

lemma min_loop_split:
  "\<exists>before after. b # xs = before @ min_loop b xs # after
     \<and> (\<forall>e \<in> set before. fst (min_loop b xs) < fst e)
     \<and> (\<forall>e \<in> set after. fst (min_loop b xs) \<le> fst e)"
proof (induction xs arbitrary: b)
  case Nil
  have "[b] = [] @ min_loop b [] # []
      \<and> (\<forall>e \<in> set []. fst (min_loop b []) < fst e)
      \<and> (\<forall>e \<in> set []. fst (min_loop b []) \<le> fst e)"
    by simp
  then show ?case by blast
next
  case (Cons x xs)
  show ?case
  proof (cases "fst x < fst b")
    case True
    let ?m = "min_loop x xs"
    have m: "min_loop b (x # xs) = ?m" using True by simp
    from Cons [of x] obtain before after where
      s: "x # xs = before @ ?m # after"
      and lt: "\<forall>e \<in> set before. fst ?m < fst e"
      and le: "\<forall>e \<in> set after. fst ?m \<le> fst e"
      by blast
    have "fst ?m \<le> fst x"
    proof (cases before)
      case Nil
      then show ?thesis using s by (metis append_Nil list.inject order_refl)
    next
      case (Cons y ys)
      then have "x = y" using s by simp
      then show ?thesis using lt Cons by (simp add: less_imp_le)
    qed
    then have "fst ?m < fst b" using True by simp
    then have "b # x # xs = (b # before) @ ?m # after
        \<and> (\<forall>e \<in> set (b # before). fst ?m < fst e)
        \<and> (\<forall>e \<in> set after. fst ?m \<le> fst e)"
      using s lt le by simp
    then show ?thesis unfolding m by blast
  next
    case False
    let ?m = "min_loop b xs"
    have m: "min_loop b (x # xs) = ?m" using False by simp
    from Cons [of b] obtain before after where
      s: "b # xs = before @ ?m # after"
      and lt: "\<forall>e \<in> set before. fst ?m < fst e"
      and le: "\<forall>e \<in> set after. fst ?m \<le> fst e"
      by blast
    show ?thesis
    proof (cases before)
      case Nil
      then have "b # x # xs = [] @ ?m # (x # after)
          \<and> (\<forall>e \<in> set []. fst ?m < fst e)
          \<and> (\<forall>e \<in> set (x # after). fst ?m \<le> fst e)"
        using s le False by auto
      then show ?thesis unfolding m by blast
    next
      case (Cons y ys)
      then have "b # x # xs = (b # x # ys) @ ?m # after
          \<and> (\<forall>e \<in> set (b # x # ys). fst ?m < fst e)
          \<and> (\<forall>e \<in> set after. fst ?m \<le> fst e)"
        using s lt le False by auto
      then show ?thesis unfolding m by blast
    qed
  qed
qed

lemma sort_key_first_min:
  fixes f :: "'a \<Rightarrow> 'k::linorder"
  assumes "\<forall>e \<in> set before. f m < f e" and "\<forall>e \<in> set after. f m \<le> f e"
  shows "sort_key f (before @ m # after) = m # sort_key f (before @ after)"
  using assms(1)
proof (induction before)
  case Nil
  have "\<forall>e \<in> set (sort_key f after). f m \<le> f e" using assms(2) by simp
  then have "insort_key f m (sort_key f after) = m # sort_key f after"
    by (cases "sort_key f after") auto
  then show ?case by simp
next
  case (Cons b bs)
  then have "\<not> f b \<le> f m" by auto
  then show ?case using Cons by simp
qed

lemma update_loop_eq:
  "update_loop t np xs (acc, found)
     = (acc @ map (\<lambda>e. if snd e = t then (np, snd e) else e) xs, found \<or> t \<in> snd ` set xs)"
  by (induction xs arbitrary: acc found) auto

lemma renumber_snd: "map snd (renumber n xs) = map snd xs"
  by (induction n xs rule: renumber.induct) simp_all

lemma renumber_fst: "map fst (renumber n xs) = [n..n + int (length xs) - 1]"
proof (induction n xs rule: renumber.induct)
  case (1 n)
  then show ?case by simp
next
  case (2 n uu item rest)
  have "[n..n + int (length rest)] = n # [n + 1..n + int (length rest)]"
    by (rule upto_rec1) simp
  then show ?case using 2 by (simp add: add.commute add.left_commute)
qed

lemma renumber_idem: "renumber n (renumber n xs) = renumber n xs"
  by (induction n xs rule: renumber.induct) simp_all

lemma renumber_sorted: "sorted (map fst (renumber n xs))"
  by (simp add: renumber_fst)

lemma push_all_eq:
  "push_all ps st = (if ps = [] then st
     else Some ((case st of None \<Rightarrow> [] | Some t \<Rightarrow> t) @ write_items ps))"
  by (induction ps st rule: push_all.induct)
     (auto simp add: push_def write_items_def split: option.splits)

section \<open>Removing the entry of least priority\<close>

lemma min_by_priority_split:
  assumes "items \<noteq> []"
  shows "\<exists>before m after. min_by_priority items = Inr m \<and> items = before @ m # after
     \<and> (\<forall>e \<in> set before. fst m < fst e) \<and> (\<forall>e \<in> set after. fst m \<le> fst e)"
proof -
  from assms obtain x xs where i: "items = x # xs" by (cases items) auto
  then have "min_by_priority items = Inr (min_loop x xs)" by (simp add: min_by_priority_def)
  then show ?thesis using min_loop_split [of x xs] i by auto
qed

lemma list_remove_first:
  assumes "\<forall>e \<in> set before. fst m < fst e"
  shows "list_remove m (before @ m # after) = Inr (before @ after)"
proof -
  have "m \<notin> set before" using assms by auto
  then show ?thesis by (simp add: list_remove_def remove1_append)
qed

lemma pop_split:
  assumes "read_items st = Inr items" and "items \<noteq> []"
  shows "\<exists>before m after. items = before @ m # after
     \<and> (\<forall>e \<in> set before. fst m < fst e) \<and> (\<forall>e \<in> set after. fst m \<le> fst e)
     \<and> pop st = (Inr (snd m), Some (write_items (before @ after)))
     \<and> peek st = Inr (snd m)"
proof -
  from min_by_priority_split [OF assms(2)] obtain before m after where
    m: "min_by_priority items = Inr m" and s: "items = before @ m # after"
    and lt: "\<forall>e \<in> set before. fst m < fst e" and le: "\<forall>e \<in> set after. fst m \<le> fst e"
    by blast
  have "list_remove m items = Inr (before @ after)"
    unfolding s using lt by (rule list_remove_first)
  then have "pop st = (Inr (snd m), Some (write_items (before @ after)))"
    using assms m by (simp add: pop_def)
  moreover have "peek st = Inr (snd m)" using assms m by (simp add: peek_def)
  ultimately show ?thesis using s lt le by blast
qed

text \<open>
  Claim C1. On a file that the read loop decodes into a non-empty list of entries, \<open>pop\<close>
  returns the item of the first entry, in file order, among those of least priority:
  the entries before it have a strictly greater priority and those after it a greater or
  equal one. It writes back the entries before and after that one, so exactly that
  occurrence is removed, and reading the rewritten file gives those entries again.
\<close>

theorem pop_removes_first_minimum:
  assumes "read_items (Some content) = Inr items" and "items \<noteq> []"
  shows "\<exists>before m after. items = before @ m # after
     \<and> (\<forall>e \<in> set before. fst m < fst e) \<and> (\<forall>e \<in> set after. fst m \<le> fst e)
     \<and> pop (Some content) = (Inr (snd m), Some (write_items (before @ after)))
     \<and> read_items (Some (write_items (before @ after))) = Inr (before @ after)"
proof -
  from pop_split [OF assms] obtain before m after where
    s: "items = before @ m # after"
    and lt: "\<forall>e \<in> set before. fst m < fst e" and le: "\<forall>e \<in> set after. fst m \<le> fst e"
    and p: "pop (Some content) = (Inr (snd m), Some (write_items (before @ after)))"
    by blast
  have "\<forall>e \<in> set (before @ after). well_formed_item (snd e)"
    using read_items_wf [OF assms(1)] s by simp
  then have "read_items (Some (write_items (before @ after))) = Inr (before @ after)"
    by (rule read_items_write_items)
  then show ?thesis using s lt le p by blast
qed

text \<open>The theorem at the file with the two lines \<open>5 A\<close> and \<open>5 B\<close>, a tie of priorities.\<close>

theorem pop_removes_first_minimum_witness:
  "read_items (Some (''5 A'' @ [LF] @ ''5 B'' @ [LF])) = Inr [(5, ''A''), (5, ''B'')]
   \<and> [(5, ''A''), (5 :: int, ''B'')] \<noteq> []
   \<and> (\<exists>before m after. [(5, ''A''), (5, ''B'')] = before @ m # after
     \<and> (\<forall>e \<in> set before. fst m < fst e) \<and> (\<forall>e \<in> set after. fst m \<le> fst e)
     \<and> pop (Some (''5 A'' @ [LF] @ ''5 B'' @ [LF])) = (Inr (snd m), Some (write_items (before @ after)))
     \<and> read_items (Some (write_items (before @ after))) = Inr (before @ after))"
proof -
  have h1: "read_items (Some (''5 A'' @ [LF] @ ''5 B'' @ [LF])) = Inr [(5, ''A''), (5, ''B'')]"
    by code_simp
  have h2: "[(5, ''A''), (5 :: int, ''B'')] \<noteq> []" by simp
  show ?thesis using h1 h2 pop_removes_first_minimum [OF h1 h2] by blast
qed

text \<open>
  Claim C10. After \<open>pop\<close> on a file that decodes into a non-empty list, the rewritten file
  decodes into the entries that were kept: the old entries without one occurrence of the
  removed entry, as a sublist of the old list, so in their old order and each with its
  priority and item as before.
\<close>

theorem pop_keeps_other_entries:
  assumes "read_items (Some content) = Inr items" and "items \<noteq> []"
  shows "\<exists>removed kept. pop (Some content) = (Inr (snd removed), Some (write_items kept))
     \<and> read_items (Some (write_items kept)) = Inr kept
     \<and> mset items = add_mset removed (mset kept)
     \<and> subseq kept items"
proof -
  from pop_split [OF assms] obtain before m after where
    s: "items = before @ m # after"
    and p: "pop (Some content) = (Inr (snd m), Some (write_items (before @ after)))"
    by blast
  have "\<forall>e \<in> set (before @ after). well_formed_item (snd e)"
    using read_items_wf [OF assms(1)] s by simp
  then have "read_items (Some (write_items (before @ after))) = Inr (before @ after)"
    by (rule read_items_write_items)
  moreover have "mset items = add_mset m (mset (before @ after))" using s by simp
  moreover have "subseq (before @ after) items"
    unfolding s by (intro list_emb_append_mono list_emb_Cons) simp_all
  ultimately show ?thesis using p by blast
qed

text \<open>The theorem at the file with the lines \<open>3 A\<close>, \<open>1 B\<close> and \<open>2 C\<close>.\<close>

theorem pop_keeps_other_entries_witness:
  "let content = ''3 A'' @ [LF] @ ''1 B'' @ [LF] @ ''2 C'' @ [LF];
       items = [(3, ''A''), (1, ''B''), (2, ''C'')] :: entry list
   in read_items (Some content) = Inr items \<and> items \<noteq> []
     \<and> (\<exists>removed kept. pop (Some content) = (Inr (snd removed), Some (write_items kept))
       \<and> read_items (Some (write_items kept)) = Inr kept
       \<and> mset items = add_mset removed (mset kept)
       \<and> subseq kept items)"
proof -
  have h1: "read_items (Some (''3 A'' @ [LF] @ ''1 B'' @ [LF] @ ''2 C'' @ [LF]))
      = Inr [(3, ''A''), (1, ''B''), (2, ''C'')]"
    by code_simp
  have h2: "([(3, ''A''), (1, ''B''), (2, ''C'')] :: entry list) \<noteq> []" by simp
  show ?thesis unfolding Let_def using h1 h2 pop_keeps_other_entries [OF h1 h2] by blast
qed

section \<open>Pushing, then popping until empty\<close>

lemma pop_n_sorted:
  "read_items st = Inr items \<Longrightarrow> length items = n \<Longrightarrow>
   pop_n n st = (Inr (map snd (sort_key fst items)), if n = 0 then st else Some [])"
proof (induction n arbitrary: st items)
  case 0
  then show ?case by simp
next
  case (Suc n)
  have "items \<noteq> []" using Suc.prems(2) by auto
  from pop_split [OF Suc.prems(1) this] obtain before m after where
    s: "items = before @ m # after"
    and lt: "\<forall>e \<in> set before. fst m < fst e" and le: "\<forall>e \<in> set after. fst m \<le> fst e"
    and p: "pop st = (Inr (snd m), Some (write_items (before @ after)))"
    by blast
  have "\<forall>e \<in> set (before @ after). well_formed_item (snd e)"
    using read_items_wf [OF Suc.prems(1)] s by simp
  then have r: "read_items (Some (write_items (before @ after))) = Inr (before @ after)"
    by (rule read_items_write_items)
  have l: "length (before @ after) = n" using Suc.prems(2) s by simp
  have e: "n = 0 \<Longrightarrow> write_items (before @ after) = []"
    using l by (simp add: write_items_def)
  have "pop_n n (Some (write_items (before @ after)))
      = (Inr (map snd (sort_key fst (before @ after))),
         if n = 0 then Some (write_items (before @ after)) else Some [])"
    using r l by (rule Suc.IH)
  then have "pop_n n (Some (write_items (before @ after)))
      = (Inr (map snd (sort_key fst (before @ after))), Some [])"
    using e by (cases "n = 0") simp_all
  moreover have "sort_key fst items = m # sort_key fst (before @ after)"
    unfolding s using lt le by (rule sort_key_first_min)
  ultimately show ?case using p by simp
qed

text \<open>
  Claim C2, amended. Starting from a missing or empty file, a sequence of \<open>push\<close> calls
  whose items all hold a character that is no white space, and hold no line feed and no
  carriage return, followed by as many \<open>pop\<close> calls, returns the items of a list \<open>out\<close>
  that holds the pushed entries, each item without the white space at its end, has
  non-decreasing priorities, and has the entries of each priority in the order they were
  pushed; then \<open>is_empty\<close> returns \<open>True\<close>, and one more \<open>pop\<close> raises the \<open>IndexError\<close>
  "Queue is empty".
\<close>

theorem push_then_pop_order:
  assumes "\<forall>e \<in> set pushed. storable_item (snd e)"
    and "st = None \<or> st = Some []"
  shows "\<exists>out. pop_n (length pushed) (push_all pushed st)
         = (Inr (map snd out), if pushed = [] then st else Some [])
     \<and> sorted (map fst out)
     \<and> mset out = mset (map as_read pushed)
     \<and> (\<forall>k. filter (\<lambda>e. fst e = k) out = filter (\<lambda>e. fst e = k) (map as_read pushed))
     \<and> (pushed \<noteq> [] \<longrightarrow>
          is_empty (snd (pop_n (length pushed) (push_all pushed st))) = Inr True
          \<and> pop (snd (pop_n (length pushed) (push_all pushed st))) = (Inl IndexError, Some []))"
proof -
  let ?out = "sort_key fst (map as_read pushed)"
  have "pop_n (length pushed) (push_all pushed st)
      = (Inr (map snd ?out), if pushed = [] then st else Some [])"
  proof (cases "pushed = []")
    case True
    then show ?thesis by simp
  next
    case False
    then have "push_all pushed st = Some (write_items pushed)"
      using assms(2) by (auto simp add: push_all_eq)
    moreover have "read_items (Some (write_items pushed)) = Inr (map as_read pushed)"
      using assms(1) by (rule read_items_write_storable)
    ultimately show ?thesis
      using False pop_n_sorted [of "Some (write_items pushed)" "map as_read pushed" "length pushed"]
      by simp
  qed
  moreover have "pop (Some []) = (Inl IndexError, Some [])"
    by (simp add: pop_def read_items_def)
  moreover have "is_empty (Some []) = Inr True" by (simp add: is_empty_def)
  moreover have "sorted (map fst ?out)" by simp
  moreover have "mset ?out = mset (map as_read pushed)" by simp
  moreover have "\<forall>k. filter (\<lambda>e. fst e = k) ?out
      = filter (\<lambda>e. fst e = k) (map as_read pushed)"
    by (simp add: sort_key_stable)
  ultimately show ?thesis by (intro exI [of _ ?out]) simp
qed

text \<open>The theorem at the pushes of \<open>"A "\<close> with priority 2, \<open>B\<close> with 1 and \<open>C\<close> with 2,
  on a missing file.\<close>

theorem push_then_pop_order_witness:
  "let pushed = [(2, ''A ''), (1, ''B''), (2, ''C'')] :: entry list; st = None :: store
   in (\<forall>e \<in> set pushed. storable_item (snd e))
     \<and> (st = None \<or> st = Some [])
     \<and> (\<exists>out. pop_n (length pushed) (push_all pushed st)
           = (Inr (map snd out), if pushed = [] then st else Some [])
       \<and> sorted (map fst out)
       \<and> mset out = mset (map as_read pushed)
       \<and> (\<forall>k. filter (\<lambda>e. fst e = k) out = filter (\<lambda>e. fst e = k) (map as_read pushed))
       \<and> (pushed \<noteq> [] \<longrightarrow>
            is_empty (snd (pop_n (length pushed) (push_all pushed st))) = Inr True
            \<and> pop (snd (pop_n (length pushed) (push_all pushed st))) = (Inl IndexError, Some [])))"
proof -
  have h1: "\<forall>e \<in> set ([(2, ''A ''), (1, ''B''), (2, ''C'')] :: entry list).
      storable_item (snd e)"
    by (simp add: storable_item_def rstrip_def isspace_def)
  have h2: "(None :: store) = None \<or> (None :: store) = Some []" by simp
  show ?thesis unfolding Let_def using h1 h2 push_then_pop_order [OF h1 h2] by blast
qed

text \<open>
  Claim C2 as stated fails. An empty item holds no newline, yet after \<open>push("x", 2)\<close>
  and \<open>push("", 1)\<close> on an empty file \<open>pop\<close> raises the \<open>ValueError\<close> of the unpacking and
  leaves the file as it is, so no item is ever popped. And after the single call
  \<open>push("a\r0 b", 1)\<close> the first \<open>pop\<close> returns \<open>b\<close>, which was not pushed.
\<close>

theorem push_then_pop_counterexample:
  "push_all [(2, ''x''), (1, '''')] (Some []) = Some (''2 x'' @ [LF] @ ''1 '' @ [LF])
   \<and> pop (Some (''2 x'' @ [LF] @ ''1 '' @ [LF]))
       = (Inl (ValueError NotEnoughValues), Some (''2 x'' @ [LF] @ ''1 '' @ [LF]))
   \<and> LF \<notin> set (''a'' @ [CR] @ ''0 b'')
   \<and> pop (push_all [(1, ''a'' @ [CR] @ ''0 b'')] (Some [])) = (Inr ''b'', Some (''1 a'' @ [LF]))"
  by code_simp

section \<open>Errors and the missing file\<close>

text \<open>
  Claim C3, amended. No method tests whether the file exists. On a missing file the read
  loop of \<open>pop\<close> and \<open>peek\<close> does not yield an empty list: opening the file raises
  \<open>FileNotFoundError\<close>, and the file stays missing. On a file that exists and is empty
  the list read is empty, and \<open>pop\<close> and \<open>peek\<close> raise the \<open>IndexError\<close> "Queue is empty".
\<close>

theorem pop_peek_missing_or_empty_file:
  "read_items None = Inl FileNotFoundError
   \<and> pop None = (Inl FileNotFoundError, None)
   \<and> peek None = Inl FileNotFoundError
   \<and> read_items (Some []) = Inr []
   \<and> pop (Some []) = (Inl IndexError, Some [])
   \<and> peek (Some []) = Inl IndexError"
  by (simp add: read_items_def pop_def peek_def)

text \<open>
  Claim C3 as stated fails: on the missing file the read loop gives no empty list, and
  the error of \<open>pop\<close> and \<open>peek\<close> differs from the one on the empty file.
\<close>

theorem pop_peek_missing_file_counterexample:
  "read_items None \<noteq> Inr []
   \<and> fst (pop None) \<noteq> Inl IndexError
   \<and> peek None \<noteq> Inl IndexError
   \<and> fst (pop None) \<noteq> fst (pop (Some []))
   \<and> peek None \<noteq> peek (Some [])"
  by (simp add: read_items_def pop_def peek_def)




text \<open>
  Claim C9, amended. For every entry whose item holds no newline character, is not empty
  and ends in a character that is no white space, decoding the written line gives the
  same priority and the same item, with its leading and inner white space. Read back
  through the file the same holds when the item has no carriage return either.
\<close>

theorem encode_decode_round_trip:
  assumes "LF \<notin> set item" and "item \<noteq> []" and "\<not> isspace (last item)"
  shows "parse_line (format_line priority item) = Inr (priority, item)
     \<and> (CR \<notin> set item \<longrightarrow> read_items (Some (format_line priority item)) = Inr [(priority, item)])"
proof -
  have "rstrip item = item" using assms(2,3) by (rule rstrip_id)
  then have "parse_line (format_line priority item) = Inr (priority, item)"
    using assms(2) parse_line_format_line [of item priority] by simp
  moreover have "read_items (Some (format_line priority item)) = Inr [(priority, item)]"
    if "CR \<notin> set item"
  proof -
    have "\<forall>e \<in> set [(priority, item)]. well_formed_item (snd e)"
      using assms that by (simp add: well_formed_item_def)
    then have "read_items (Some (write_items [(priority, item)])) = Inr [(priority, item)]"
      by (rule read_items_write_items)
    then show ?thesis by (simp add: write_items_def)
  qed
  ultimately show ?thesis by blast
qed

text \<open>The theorem at the priority \<open>-12\<close> and the item \<open>"  two  words"\<close>.\<close>

theorem encode_decode_round_trip_witness:
  "let item = ''  two  words''
   in LF \<notin> set item \<and> item \<noteq> [] \<and> \<not> isspace (last item)
     \<and> parse_line (format_line (- 12) item) = Inr (- 12, item)
     \<and> (CR \<notin> set item \<longrightarrow> read_items (Some (format_line (- 12) item)) = Inr [(- 12, item)])"
proof -
  have h1: "LF \<notin> set ''  two  words''" by simp
  have h2: "''  two  words'' \<noteq> []" by simp
  have h3: "\<not> isspace (last ''  two  words'')" by (simp add: isspace_def)
  show ?thesis
    unfolding Let_def using h1 h2 h3 encode_decode_round_trip [OF h1 h2 h3] by blast
qed

text \<open>
  Claim C9 as stated fails for white space at the end of an item: the line written for
  priority 5 and item \<open>"x "\<close> decodes to the item \<open>"x"\<close>.
\<close>

theorem encode_decode_counterexample:
  "LF \<notin> set ''x ''
   \<and> parse_line (format_line 5 ''x '') = Inr (5, ''x'')
   \<and> parse_line (format_line 5 ''x '') \<noteq> Inr (5, ''x '')"
  by code_simp

section \<open>Changing and renumbering priorities\<close>

text \<open>
  Claim C7. On a file that decodes into entries none of which has the item
  \<open>target_item\<close>, \<open>change_priority\<close> raises the \<open>ValueError\<close> "Item ... not found in the
  queue." before it opens the file for writing, so the file keeps its text.
\<close>

theorem change_priority_absent_item:
  assumes "read_items (Some content) = Inr items"
    and "target_item \<notin> snd ` set items"
  shows "change_priority target_item new_priority (Some content)
       = (Inl (ValueError ItemNotFound), Some content)"
  using assms by (simp add: change_priority_def update_loop_eq)

text \<open>The theorem at the file with the lines \<open>1 A\<close> and \<open>2 B\<close> and the item \<open>Z\<close>.\<close>

theorem change_priority_absent_item_witness:
  "let content = ''1 A'' @ [LF] @ ''2 B'' @ [LF]; items = [(1, ''A''), (2, ''B'')] :: entry list
   in read_items (Some content) = Inr items
     \<and> ''Z'' \<notin> snd ` set items
     \<and> change_priority ''Z'' 7 (Some content) = (Inl (ValueError ItemNotFound), Some content)"
proof -
  have h1: "read_items (Some (''1 A'' @ [LF] @ ''2 B'' @ [LF])) = Inr [(1, ''A''), (2, ''B'')]"
    by code_simp
  have h2: "''Z'' \<notin> snd ` set ([(1, ''A''), (2, ''B'')] :: entry list)" by simp
  show ?thesis
    unfolding Let_def using h1 h2 change_priority_absent_item [OF h1 h2] by blast
qed

text \<open>
  Claim C6. On a file that decodes into entries at least one of which has the item
  \<open>target_item\<close>, \<open>change_priority\<close> returns normally and writes a file that decodes into
  a list of the same length, in which every position that held \<open>target_item\<close> holds it
  with \<open>new_priority\<close>, and every other position holds the entry it held before.
\<close>

theorem change_priority_updates_all_matches:
  assumes "read_items (Some content) = Inr items"
    and "target_item \<in> snd ` set items"
  shows "\<exists>updated. change_priority target_item new_priority (Some content)
         = (Inr (), Some (write_items updated))
     \<and> read_items (Some (write_items updated)) = Inr updated
     \<and> length updated = length items
     \<and> (\<forall>k < length items.
           updated ! k = (if snd (items ! k) = target_item then (new_priority, target_item)
                          else items ! k))"
proof -
  let ?u = "map (\<lambda>e. if snd e = target_item then (new_priority, snd e) else e) items"
  have c: "change_priority target_item new_priority (Some content)
      = (Inr (), Some (write_items ?u))"
    using assms by (simp add: change_priority_def update_loop_eq)
  have "\<forall>e \<in> set items. well_formed_item (snd e)"
    using assms(1) by (rule read_items_wf)
  then have "\<forall>e \<in> set ?u. well_formed_item (snd e)" by auto
  then have r: "read_items (Some (write_items ?u)) = Inr ?u"
    by (rule read_items_write_items)
  have "\<forall>k < length items.
      ?u ! k = (if snd (items ! k) = target_item then (new_priority, target_item) else items ! k)"
    by simp
  then show ?thesis using c r by (intro exI [of _ ?u]) simp
qed

text \<open>The theorem at the file with the lines \<open>1 A\<close>, \<open>2 B\<close> and \<open>3 A\<close> and the item \<open>A\<close>.\<close>

theorem change_priority_updates_all_matches_witness:
  "let content = ''1 A'' @ [LF] @ ''2 B'' @ [LF] @ ''3 A'' @ [LF];
       items = [(1, ''A''), (2, ''B''), (3, ''A'')] :: entry list
   in read_items (Some content) = Inr items
     \<and> ''A'' \<in> snd ` set items
     \<and> (\<exists>updated. change_priority ''A'' 9 (Some content) = (Inr (), Some (write_items updated))
       \<and> read_items (Some (write_items updated)) = Inr updated
       \<and> length updated = length items
       \<and> (\<forall>k < length items.
             updated ! k = (if snd (items ! k) = ''A'' then (9, ''A'') else items ! k)))"
proof -
  have h1: "read_items (Some (''1 A'' @ [LF] @ ''2 B'' @ [LF] @ ''3 A'' @ [LF]))
      = Inr [(1, ''A''), (2, ''B''), (3, ''A'')]"
    by code_simp
  have h2: "''A'' \<in> snd ` set ([(1, ''A''), (2, ''B''), (3, ''A'')] :: entry list)" by simp
  show ?thesis
    unfolding Let_def using h1 h2 change_priority_updates_all_matches [OF h1 h2] by blast
qed

text \<open>
  Claim C8. On a file that decodes into entries, \<open>reorder_priorities\<close> writes a file that
  decodes into the list \<open>es\<close> of the items in the order of the stable sort by priority,
  with the priorities 1, 2, ... up to the number of entries; applied to the file it has
  written, it writes the same text again.
\<close>

theorem reorder_priorities_idempotent:
  assumes "read_items (Some content) = Inr items"
  shows "\<exists>es. reorder_priorities (Some content) = (Inr (), Some (write_items es))
     \<and> read_items (snd (reorder_priorities (Some content))) = Inr es
     \<and> map fst es = [1..int (length items)]
     \<and> map snd es = map snd (sort_key fst items)
     \<and> reorder_priorities (snd (reorder_priorities (Some content)))
         = reorder_priorities (Some content)"
proof -
  let ?es = "renumber 1 (sort_by_priority items)"
  have c: "reorder_priorities (Some content) = (Inr (), Some (write_items ?es))"
    using assms by (simp add: reorder_priorities_def)
  have f: "map fst ?es = [1..int (length items)]"
    by (simp add: renumber_fst sort_by_priority_def)
  have s: "map snd ?es = map snd (sort_key fst items)"
    by (simp add: renumber_snd sort_by_priority_def)
  have "\<forall>e \<in> set items. well_formed_item (snd e)"
    using assms by (rule read_items_wf)
  moreover have "snd ` set ?es = snd ` set items"
    using arg_cong [OF s, of set] by simp
  ultimately have "\<forall>e \<in> set ?es. well_formed_item (snd e)"
    by (metis imageE imageI)
  then have r: "read_items (Some (write_items ?es)) = Inr ?es"
    by (rule read_items_write_items)
  have "sort_by_priority ?es = ?es"
    unfolding sort_by_priority_def [of ?es] by (rule sort_key_id_if_sorted) (rule renumber_sorted)
  then have "reorder_priorities (Some (write_items ?es)) = (Inr (), Some (write_items ?es))"
    using r by (simp add: reorder_priorities_def renumber_idem)
  then show ?thesis using c r f s by (intro exI [of _ ?es]) simp
qed

text \<open>
  The theorem at the file with the lines \<open>7 A\<close>, \<open>2 B\<close> and \<open>7 C\<close>, where one
  application, and so a second one, leaves the lines \<open>1 B\<close>, \<open>2 A\<close> and \<open>3 C\<close>.
\<close>

theorem reorder_priorities_idempotent_witness:
  "let content = ''7 A'' @ [LF] @ ''2 B'' @ [LF] @ ''7 C'' @ [LF];
       items = [(7, ''A''), (2, ''B''), (7, ''C'')] :: entry list
   in read_items (Some content) = Inr items
     \<and> reorder_priorities (Some content)
         = (Inr (), Some (''1 B'' @ [LF] @ ''2 A'' @ [LF] @ ''3 C'' @ [LF]))
     \<and> (\<exists>es. reorder_priorities (Some content) = (Inr (), Some (write_items es))
       \<and> read_items (snd (reorder_priorities (Some content))) = Inr es
       \<and> map fst es = [1..int (length items)]
       \<and> map snd es = map snd (sort_key fst items)
       \<and> reorder_priorities (snd (reorder_priorities (Some content)))
           = reorder_priorities (Some content))"
proof -
  have h: "read_items (Some (''7 A'' @ [LF] @ ''2 B'' @ [LF] @ ''7 C'' @ [LF]))
      = Inr [(7, ''A''), (2, ''B''), (7, ''C'')]"
    by code_simp
  have v: "reorder_priorities (Some (''7 A'' @ [LF] @ ''2 B'' @ [LF] @ ''7 C'' @ [LF]))
      = (Inr (), Some (''1 B'' @ [LF] @ ''2 A'' @ [LF] @ ''3 C'' @ [LF]))"
    by code_simp
  show ?thesis unfolding Let_def using h v reorder_priorities_idempotent [OF h] by blast
qed



end
